theory Spec2Isabelle
  imports Main "HOL-Library.Word"
begin

text \<open>
  A shallow embedding of \<^verbatim>\<open>src/lib/index.js\<close>, a cache connection that keeps
  serialized values in a size-bounded store and expires them with one timer per entry.

  The source mutates a connection object, allocates Buffers, reads the clock and arms
  timers of the host. The embedding threads one record, \<open>world\<close>, through every
  operation: the connection (its settings and its store), the heap of Buffers, the
  clock, and the registry of armed timers. An operation returns its outcome together
  with the new world. The source hands every outcome to a callback that runs on a later
  turn (\<^verbatim>\<open>Hoek.nextTick\<close>); the embedding returns the outcome directly, since all
  state changes of an operation happen before it returns.
\<close>

section \<open>Values\<close>

text \<open>
  The values a caller can pass to \<^verbatim>\<open>set\<close>. A Buffer is a reference into the heap
  of byte arrays, so that two references to one Buffer can be told from two Buffers
  with equal content. Numbers are the integers; strings are sequences of 8-bit
  characters. An object is the list of its properties in enumeration order.
  \<open>JCircular\<close> stands for a value that \<^verbatim>\<open>JSON.stringify\<close> rejects with a
  TypeError (an object graph with a cycle: a finite tree cannot hold the cycle itself).
\<close>

type_synonym byte = "8 word"
type_synonym addr = nat
type_synonym heap = "byte list list"

datatype jsval =
    JNull
  | JBool bool
  | JNum int
  | JStr string
  | JArr "jsval list"
  | JObj "(string \<times> jsval) list"
  | JBuffer addr
  | JCircular

definition dquote :: char where "dquote = CHR 0x22"
definition bslash :: char where "bslash = CHR 0x5C"

definition buffer_bytes :: "heap \<Rightarrow> addr \<Rightarrow> byte list" where
  "buffer_bytes h a = (if a < length h then h ! a else [])"

section \<open>JSON text\<close>

text \<open>
  \<^verbatim>\<open>JSON.stringify\<close> and \<^verbatim>\<open>JSON.parse\<close> are built-ins of the host. They are
  modelled on the values above: the printer writes the compact form without white space,
  escapes the quote, the backslash and the control characters in strings, and writes a
  Buffer the way its \<^verbatim>\<open>toJSON\<close> presents it, as an object with the fields
  \<^verbatim>\<open>type\<close> and \<^verbatim>\<open>data\<close>.
\<close>

definition digit_char :: "int \<Rightarrow> char" where
  "digit_char d = char_of (48 + d)"

function show_digits :: "int \<Rightarrow> string" where
  "show_digits n = (if n < 10 then [digit_char n] else show_digits (n div 10) @ [digit_char (n mod 10)])"
  by pat_completeness auto
termination
  by (relation "measure nat") auto

declare show_digits.simps [simp del]

definition show_int :: "int \<Rightarrow> string" where
  "show_int i = (if i < 0 then CHR ''-'' # show_digits (- i) else show_digits i)"

definition hex_char :: "nat \<Rightarrow> char" where
  "hex_char d = (if d < 10 then char_of (48 + d) else char_of (87 + d))"

definition escape_char :: "char \<Rightarrow> string" where
  "escape_char c =
     (let n = (of_char c :: nat) in
      if c = dquote then [bslash, dquote]
      else if c = bslash then [bslash, bslash]
      else if n = 8 then [bslash, CHR ''b'']
      else if n = 9 then [bslash, CHR ''t'']
      else if n = 10 then [bslash, CHR ''n'']
      else if n = 12 then [bslash, CHR ''f'']
      else if n = 13 then [bslash, CHR ''r'']
      else if n < 32 then [bslash, CHR ''u'', CHR ''0'', CHR ''0'', hex_char (n div 16), hex_char (n mod 16)]
      else [c])"

definition quote :: "string \<Rightarrow> string" where
  "quote s = dquote # concat (map escape_char s) @ [dquote]"

fun commas :: "string list \<Rightarrow> string" where
  "commas [] = []"
| "commas [x] = x"
| "commas (x # y # ys) = x @ CHR '','' # commas (y # ys)"

fun JSON_encode :: "heap \<Rightarrow> jsval \<Rightarrow> string" where
  "JSON_encode h JNull = ''null''"
| "JSON_encode h (JBool b) = (if b then ''true'' else ''false'')"
| "JSON_encode h (JNum n) = show_int n"
| "JSON_encode h (JStr s) = quote s"
| "JSON_encode h (JArr xs) = ''['' @ commas (map (JSON_encode h) xs) @ '']''"
| "JSON_encode h (JObj kvs) =
     ''{'' @ commas (map (\<lambda>kv. quote (fst kv) @ '':'' @ JSON_encode h (snd kv)) kvs) @ ''}''"
| "JSON_encode h (JBuffer a) =
     ''{'' @ quote ''type'' @ '':'' @ quote ''Buffer'' @ '','' @ quote ''data'' @ '':[''
       @ commas (map (\<lambda>b. show_digits (uint b)) (buffer_bytes h a)) @ '']}''"
| "JSON_encode h JCircular = []"

text \<open>
  The parser is a recursive descent over the text. It accepts white space between
  tokens, the escapes of JSON strings and integer numbers. Text that needs a value
  outside the model (a number with a fraction or an exponent, an escaped character above
  code 255) is reported as \<open>Bad\<close>, like text that is not JSON at all. The
  recursion is bounded by fuel; \<open>JSON_parse\<close> gives enough of it for every text
  (lemma \<open>JSON_parse_fuel\<close> below), so \<open>Fuel\<close> is never its outcome.
\<close>

datatype parsed = Good jsval string | Bad | Fuel

definition is_ws :: "char \<Rightarrow> bool" where
  "is_ws c = (let n = (of_char c :: nat) in n = 32 \<or> n = 9 \<or> n = 10 \<or> n = 13)"

definition skip_ws :: "string \<Rightarrow> string" where
  "skip_ws s = dropWhile is_ws s"

definition hex_val :: "char \<Rightarrow> nat option" where
  "hex_val c =
     (let n = (of_char c :: nat) in
      if 48 \<le> n \<and> n \<le> 57 then Some (n - 48)
      else if 97 \<le> n \<and> n \<le> 102 then Some (n - 87)
      else if 65 \<le> n \<and> n \<le> 70 then Some (n - 55)
      else None)"

definition unescape :: "char \<Rightarrow> char option" where
  "unescape e =
     (if e = dquote then Some dquote
      else if e = bslash then Some bslash
      else if e = CHR ''/'' then Some (CHR ''/'')
      else if e = CHR ''b'' then Some (char_of (8::nat))
      else if e = CHR ''t'' then Some (char_of (9::nat))
      else if e = CHR ''n'' then Some (char_of (10::nat))
      else if e = CHR ''f'' then Some (char_of (12::nat))
      else if e = CHR ''r'' then Some (char_of (13::nat))
      else None)"

definition consc :: "char \<Rightarrow> (string \<times> string) option \<Rightarrow> (string \<times> string) option" where
  "consc c r = (case r of None \<Rightarrow> None | Some (s, t) \<Rightarrow> Some (c # s, t))"

fun parse_chars :: "string \<Rightarrow> (string \<times> string) option" where
  "parse_chars [] = None"
| "parse_chars (c # r) =
     (if c = dquote then Some ([], r)
      else if c = bslash then
        (case r of
           [] \<Rightarrow> None
         | e # r1 \<Rightarrow>
             if e = CHR ''u'' then
               (case r1 of
                  h1 # h2 # h3 # h4 # r2 \<Rightarrow>
                    (case (hex_val h1, hex_val h2, hex_val h3, hex_val h4) of
                       (Some a, Some b, Some x, Some y) \<Rightarrow>
                         if a = 0 \<and> b = 0 then consc (char_of (16 * x + y)) (parse_chars r2)
                         else None
                     | _ \<Rightarrow> None)
                | _ \<Rightarrow> None)
             else (case unescape e of
                     None \<Rightarrow> None
                   | Some ch \<Rightarrow> consc ch (parse_chars r1)))
      else if (of_char c :: nat) < 32 then None
      else consc c (parse_chars r))"

definition is_digit :: "char \<Rightarrow> bool" where
  "is_digit c = (let n = (of_char c :: nat) in 48 \<le> n \<and> n \<le> 57)"

definition digits_val :: "string \<Rightarrow> int" where
  "digits_val ds = foldl (\<lambda>a c. 10 * a + (int (of_char c) - 48)) 0 ds"

definition parse_number :: "string \<Rightarrow> parsed" where
  "parse_number s =
     (let neg = (s \<noteq> [] \<and> hd s = CHR ''-'');
          r = (if neg then tl s else s);
          ds = takeWhile is_digit r;
          rest = dropWhile is_digit r
      in if ds = [] then Bad
         else if 1 < length ds \<and> hd ds = CHR ''0'' then Bad
         else if rest \<noteq> [] \<and> hd rest \<in> set ''.eE'' then Bad
         else Good (JNum (if neg then - digits_val ds else digits_val ds)) rest)"

definition parse_literal :: "string \<Rightarrow> jsval \<Rightarrow> string \<Rightarrow> parsed" where
  "parse_literal w v s = (if take (length w) s = w then Good v (drop (length w) s) else Bad)"

text \<open>
  \<^verbatim>\<open>JSON.parse\<close> builds an object by assigning the members in the order of the
  text. Assigning an existing property replaces its value in place; a new property whose
  name is an array index is enumerated before the other names, in ascending order; any
  other new property comes last.
\<close>

definition is_index :: "string \<Rightarrow> bool" where
  "is_index k = (k \<noteq> [] \<and> list_all is_digit k \<and> (length k = 1 \<or> hd k \<noteq> CHR ''0'')
                 \<and> digits_val k < 4294967295)"

fun obj_insert :: "string \<Rightarrow> jsval \<Rightarrow> (string \<times> jsval) list \<Rightarrow> (string \<times> jsval) list" where
  "obj_insert k v [] = [(k, v)]"
| "obj_insert k v ((k', v') # kvs) =
     (if is_index k \<and> (\<not> is_index k' \<or> digits_val k < digits_val k') then (k, v) # (k', v') # kvs
      else (k', v') # obj_insert k v kvs)"

definition obj_put :: "string \<Rightarrow> jsval \<Rightarrow> (string \<times> jsval) list \<Rightarrow> (string \<times> jsval) list" where
  "obj_put k v kvs =
     (if k \<in> fst ` set kvs then map (\<lambda>kv. if fst kv = k then (k, v) else kv) kvs
      else obj_insert k v kvs)"

function (sequential) parse_value :: "nat \<Rightarrow> string \<Rightarrow> parsed"
  and parse_elements :: "nat \<Rightarrow> jsval list \<Rightarrow> string \<Rightarrow> parsed"
  and parse_members :: "nat \<Rightarrow> (string \<times> jsval) list \<Rightarrow> string \<Rightarrow> parsed" where
  "parse_value 0 s = Fuel"
| "parse_value (Suc n) s =
     (case skip_ws s of
        [] \<Rightarrow> Bad
      | c # r \<Rightarrow>
          if c = CHR ''['' then
            (case skip_ws r of
               [] \<Rightarrow> Bad
             | d # r' \<Rightarrow> if d = CHR '']'' then Good (JArr []) r' else parse_elements n [] r)
          else if c = CHR ''{'' then
            (case skip_ws r of
               [] \<Rightarrow> Bad
             | d # r' \<Rightarrow> if d = CHR ''}'' then Good (JObj []) r' else parse_members n [] r)
          else if c = dquote then
            (case parse_chars r of None \<Rightarrow> Bad | Some (str, r') \<Rightarrow> Good (JStr str) r')
          else if c = CHR ''n'' then parse_literal ''ull'' JNull r
          else if c = CHR ''t'' then parse_literal ''rue'' (JBool True) r
          else if c = CHR ''f'' then parse_literal ''alse'' (JBool False) r
          else parse_number (c # r))"
| "parse_elements 0 acc s = Fuel"
| "parse_elements (Suc n) acc s =
     (case parse_value n s of
        Good v r \<Rightarrow>
          (case skip_ws r of
             [] \<Rightarrow> Bad
           | c # r' \<Rightarrow>
               if c = CHR '','' then parse_elements n (acc @ [v]) r'
               else if c = CHR '']'' then Good (JArr (acc @ [v])) r'
               else Bad)
      | Bad \<Rightarrow> Bad
      | Fuel \<Rightarrow> Fuel)"
| "parse_members 0 acc s = Fuel"
| "parse_members (Suc n) acc s =
     (case skip_ws s of
        [] \<Rightarrow> Bad
      | c # r \<Rightarrow>
          if c \<noteq> dquote then Bad
          else
            (case parse_chars r of
               None \<Rightarrow> Bad
             | Some (k, r1) \<Rightarrow>
                 (case skip_ws r1 of
                    [] \<Rightarrow> Bad
                  | c1 # r2 \<Rightarrow>
                      if c1 \<noteq> CHR '':'' then Bad
                      else
                        (case parse_value n r2 of
                           Good v r3 \<Rightarrow>
                             (case skip_ws r3 of
                                [] \<Rightarrow> Bad
                              | c3 # r4 \<Rightarrow>
                                  if c3 = CHR '','' then parse_members n (obj_put k v acc) r4
                                  else if c3 = CHR ''}'' then Good (JObj (obj_put k v acc)) r4
                                  else Bad)
                         | Bad \<Rightarrow> Bad
                         | Fuel \<Rightarrow> Fuel))))"
  by pat_completeness auto
termination
  by (relation "measure (\<lambda>x. case x of Inl (n, s) \<Rightarrow> n | Inr (Inl (n, a, s)) \<Rightarrow> n | Inr (Inr (n, a, s)) \<Rightarrow> n)") auto

definition JSON_parse :: "string \<Rightarrow> jsval option" where
  "JSON_parse s =
     (case parse_value (2 * length s + 1) s of
        Good v r \<Rightarrow> if skip_ws r = [] then Some v else None
      | Bad \<Rightarrow> None
      | Fuel \<Rightarrow> None)"



fun has_cycle :: "jsval \<Rightarrow> bool" where
  "has_cycle JCircular = True"
| "has_cycle (JArr xs) = (\<exists>x \<in> set xs. has_cycle x)"
| "has_cycle (JObj kvs) = (\<exists>kv \<in> set kvs. has_cycle (snd kv))"
| "has_cycle _ = False"

datatype thrown = TypeError

definition JSON_stringify :: "heap \<Rightarrow> jsval \<Rightarrow> thrown + string" where
  "JSON_stringify h v = (if has_cycle v then Inl TypeError else Inr (JSON_encode h v))"

section \<open>Serializer\<close>

text \<open>
  \<^verbatim>\<open>internals.serialize\<close> and \<^verbatim>\<open>internals.deserialize\<close> (lines 44 to 75). The
  payload of an envelope is either JSON text or a Buffer of the heap. In mixed-content
  mode a Buffer is copied into a fresh Buffer (\<^verbatim>\<open>new Buffer\<close>, \<^verbatim>\<open>value.copy\<close>);
  every other value is printed as JSON, and a TypeError of the printer is passed on.
  \<open>deserialize\<close> returns a Buffer payload as it is and parses a text payload, catching
  the error of the parser.
\<close>

datatype payload = Text string | Bytes addr

definition isBuffer :: "jsval \<Rightarrow> bool" where
  "isBuffer v = (case v of JBuffer a \<Rightarrow> True | _ \<Rightarrow> False)"

definition serialize :: "heap \<Rightarrow> jsval \<Rightarrow> bool \<Rightarrow> thrown + (payload \<times> heap)" where
  "serialize h v allowMixed =
     (if allowMixed \<and> isBuffer v then
        (case v of
           JBuffer a \<Rightarrow> Inr (Bytes (length h), h @ [buffer_bytes h a])
         | _ \<Rightarrow> Inl TypeError)
      else
        (case JSON_stringify h v of
           Inl e \<Rightarrow> Inl e
         | Inr s \<Rightarrow> Inr (Text s, h)))"

datatype deserialized = DValue jsval | DError

definition deserialize :: "payload \<Rightarrow> deserialized" where
  "deserialize it =
     (case it of
        Bytes a \<Rightarrow> DValue (JBuffer a)
      | Text s \<Rightarrow> (case JSON_parse s of None \<Rightarrow> DError | Some v \<Rightarrow> DValue v))"

section \<open>Envelope and settings\<close>

text \<open>
  \<^verbatim>\<open>internals.Envelope\<close> (lines 31 to 41) and \<^verbatim>\<open>internals.defaults\<close> (lines 14
  to 28). The weigher of the store is a setting; the default one is the length of a
  Buffer payload and the UTF-8 byte length of a text payload (one byte for a character
  below 128, two for the others).
\<close>

record cachekey =
  segment :: string
  ident :: string

record envelope =
  item :: payload
  stored :: int
  ttl :: int
  timeoutId :: "nat option"

record settings =
  allowMixedContent :: bool
  lru_max :: nat
  lru_length :: "heap \<Rightarrow> envelope \<Rightarrow> nat"

definition byteLength :: "string \<Rightarrow> nat" where
  "byteLength s = sum_list (map (\<lambda>c. if (of_char c :: nat) < 128 then 1 else 2) s)"

definition default_length :: "heap \<Rightarrow> envelope \<Rightarrow> nat" where
  "default_length h e =
     (case item e of
        Bytes a \<Rightarrow> length (buffer_bytes h a)
      | Text s \<Rightarrow> byteLength s)"

definition defaults :: settings where
  "defaults = \<lparr> allowMixedContent = False, lru_max = 100 * 1024 * 1024, lru_length = default_length \<rparr>"

definition Envelope ::
  "heap \<Rightarrow> int \<Rightarrow> cachekey \<Rightarrow> jsval \<Rightarrow> int \<Rightarrow> settings \<Rightarrow> thrown + (envelope \<times> heap)" where
  "Envelope h clock key v t st =
     (case serialize h v (allowMixedContent st) of
        Inl e \<Rightarrow> Inl e
      | Inr (it, h') \<Rightarrow> Inr (\<lparr> item = it, stored = clock, ttl = t, timeoutId = None \<rparr>, h'))"

section \<open>Bounded store\<close>

text \<open>
  Modelled from the spec: the bounded store. The source takes it from the package
  \<^verbatim>\<open>lru-cache\<close> (line 6), which is not part of the repository's source; the spec
  describes it as a capacity-weighted key/value container with \<^verbatim>\<open>peek\<close>,
  \<^verbatim>\<open>get\<close>, \<^verbatim>\<open>set\<close> and \<^verbatim>\<open>del\<close> by key, evicting the least recently used
  entries so that the total weight stays within the capacity, with the weight of an
  entry computed by the weigher of the caller when the entry is stored. The entries are
  kept most recently used first. \<^verbatim>\<open>get\<close> moves the entry to the front, \<^verbatim>\<open>peek\<close>
  does not. \<^verbatim>\<open>set\<close> replaces an entry of the same key, puts the new entry in front
  and removes entries from the back while the total weight exceeds the capacity; an
  entry heavier than the whole capacity is not stored. The source configures no
  eviction hook (\<^verbatim>\<open>dispose\<close>), so the store never calls back into the connection.
\<close>

record entry =
  ekey :: string
  envelope_of :: envelope
  elen :: nat

record lru =
  lmax :: nat
  llength :: "heap \<Rightarrow> envelope \<Rightarrow> nat"
  entries :: "entry list"

definition LRUCache :: "nat \<Rightarrow> (heap \<Rightarrow> envelope \<Rightarrow> nat) \<Rightarrow> lru" where
  "LRUCache m f = \<lparr> lmax = m, llength = f, entries = [] \<rparr>"

definition total :: "entry list \<Rightarrow> nat" where
  "total es = sum_list (map elen es)"

function trim :: "nat \<Rightarrow> entry list \<Rightarrow> entry list" where
  "trim m es = (if m < total es then trim m (butlast es) else es)"
  by pat_completeness auto
termination
  apply (relation "measure (\<lambda>(m, es). length es)")
   apply simp
  subgoal for m es by (cases es) (simp_all add: total_def)
  done

declare trim.simps [simp del]

definition without :: "string \<Rightarrow> entry list \<Rightarrow> entry list" where
  "without k es = filter (\<lambda>x. ekey x \<noteq> k) es"

definition lru_find :: "lru \<Rightarrow> string \<Rightarrow> entry option" where
  "lru_find c k = find (\<lambda>x. ekey x = k) (entries c)"

definition lru_peek :: "lru \<Rightarrow> string \<Rightarrow> envelope option" where
  "lru_peek c k = map_option envelope_of (lru_find c k)"

definition lru_get :: "lru \<Rightarrow> string \<Rightarrow> envelope option \<times> lru" where
  "lru_get c k =
     (case lru_find c k of
        None \<Rightarrow> (None, c)
      | Some e \<Rightarrow> (Some (envelope_of e), c\<lparr> entries := e # without k (entries c) \<rparr>))"

definition lru_del :: "lru \<Rightarrow> string \<Rightarrow> lru" where
  "lru_del c k = c\<lparr> entries := without k (entries c) \<rparr>"

definition lru_set :: "heap \<Rightarrow> lru \<Rightarrow> string \<Rightarrow> envelope \<Rightarrow> lru" where
  "lru_set h c k v =
     (let len = llength c h v in
      if lmax c < len then lru_del c k
      else c\<lparr> entries := trim (lmax c) (\<lparr> ekey = k, envelope_of = v, elen = len \<rparr> # without k (entries c)) \<rparr>)"

definition lru_values :: "lru \<Rightarrow> envelope list" where
  "lru_values c = map envelope_of (entries c)"

section \<open>Timers\<close>

text \<open>
  The timers of the host, as far as the source uses them. Every timer the source arms
  runs \<^verbatim>\<open>self.drop(key, function () { })\<close> (lines 195 to 197), so an armed timer is
  its handle, the time at which it is due and the key it will drop. \<^verbatim>\<open>setTimeout\<close>
  replaces a delay outside 1 .. 2147483647 by 1; \<^verbatim>\<open>clearTimeout\<close> removes the timer
  with the given handle and ignores \<^verbatim>\<open>null\<close>.
\<close>

record timer =
  tid :: nat
  due :: int
  tkey :: cachekey

definition timeout_delay :: "int \<Rightarrow> int" where
  "timeout_delay t = (if 1 \<le> t \<and> t \<le> 2147483647 then t else 1)"

definition clearTimeout :: "nat option \<Rightarrow> timer list \<Rightarrow> timer list" where
  "clearTimeout h ts = (case h of None \<Rightarrow> ts | Some t \<Rightarrow> filter (\<lambda>x. tid x \<noteq> t) ts)"

section \<open>Connection\<close>

text \<open>
  The constructor and the prototype functions \<^verbatim>\<open>start\<close>, \<^verbatim>\<open>stop\<close>,
  \<^verbatim>\<open>isReady\<close>, \<^verbatim>\<open>validateSegmentName\<close>, \<^verbatim>\<open>get\<close>, \<^verbatim>\<open>set\<close>,
  \<^verbatim>\<open>drop\<close> and \<^verbatim>\<open>generateKey\<close> (lines 78 to 225), in the order and with the
  checks of the source. An error handed to the callback is \<open>Inl\<close>; \<open>Inr\<close> is a
  callback without error. \<^verbatim>\<open>stop\<close> has no callback: reading \<^verbatim>\<open>forEach\<close> of
  the absent store throws, which is the \<open>Inl\<close> of its result. On a started
  connection it clears the timer of every stored envelope, empties the store and
  releases it; the released store cannot be reached any more, so the model only
  releases it.
\<close>

datatype error = ConnectionError | InvalidTTLError | SerializationError | CorruptionError

record cached =
  c_item :: jsval
  c_stored :: int
  c_ttl :: int

record world =
  settings :: settings
  cache :: "lru option"
  buffers :: heap
  now :: int
  timers :: "timer list"
  next_timer :: nat

definition Connection :: "settings \<Rightarrow> world" where
  "Connection st = \<lparr> settings = st, cache = None, buffers = [], now = 0, timers = [], next_timer = 0 \<rparr>"

definition setTimeout :: "cachekey \<Rightarrow> int \<Rightarrow> world \<Rightarrow> nat \<times> world" where
  "setTimeout key t w =
     (next_timer w,
      w\<lparr> timers := timers w @ [\<lparr> tid = next_timer w, due = now w + timeout_delay t, tkey = key \<rparr>],
         next_timer := Suc (next_timer w) \<rparr>)"

definition conn_start :: "world \<Rightarrow> world" where
  "conn_start w =
     (case cache w of
        None \<Rightarrow> w\<lparr> cache := Some (LRUCache (lru_max (settings w)) (lru_length (settings w))) \<rparr>
      | Some c \<Rightarrow> w)"

definition conn_stop :: "world \<Rightarrow> thrown + world" where
  "conn_stop w =
     (case cache w of
        None \<Rightarrow> Inl TypeError
      | Some c \<Rightarrow>
          Inr (w\<lparr> timers := foldl (\<lambda>ts e. clearTimeout (timeoutId e) ts) (timers w) (lru_values c),
                  cache := None \<rparr>))"

definition isReady :: "world \<Rightarrow> bool" where
  "isReady w = (cache w \<noteq> None)"

definition validateSegmentName :: "string \<Rightarrow> string option" where
  "validateSegmentName name =
     (if name = [] then Some ''Empty string''
      else if CHR 0x00 \<in> set name then Some ''Includes null character''
      else None)"

definition generateKey :: "cachekey \<Rightarrow> string" where
  "generateKey key = segment key @ '':'' @ ident key"

definition conn_get :: "cachekey \<Rightarrow> world \<Rightarrow> (error + cached option) \<times> world" where
  "conn_get key w =
     (case cache w of
        None \<Rightarrow> (Inl ConnectionError, w)
      | Some c \<Rightarrow>
          (case lru_get c (generateKey key) of
             (None, c') \<Rightarrow> (Inr None, w\<lparr> cache := Some c' \<rparr>)
           | (Some e, c') \<Rightarrow>
               (case deserialize (item e) of
                  DError \<Rightarrow> (Inl CorruptionError, w\<lparr> cache := Some c' \<rparr>)
                | DValue v \<Rightarrow>
                    (Inr (Some \<lparr> c_item = v, c_stored = stored e, c_ttl = ttl e \<rparr>),
                     w\<lparr> cache := Some c' \<rparr>))))"

definition conn_set :: "cachekey \<Rightarrow> jsval \<Rightarrow> int \<Rightarrow> world \<Rightarrow> (error + unit) \<times> world" where
  "conn_set key v t w =
     (case cache w of
        None \<Rightarrow> (Inl ConnectionError, w)
      | Some c \<Rightarrow>
          if t > 2147483647 then (Inl InvalidTTLError, w)
          else
            (case Envelope (buffers w) (now w) key v t (settings w) of
               Inl e \<Rightarrow> (Inl SerializationError, w)
             | Inr (env, h') \<Rightarrow>
                 (let cacheKey = generateKey key;
                      w1 = w\<lparr> buffers := h' \<rparr>;
                      w2 = (case lru_peek c cacheKey of
                              None \<Rightarrow> w1
                            | Some cachedItem \<Rightarrow>
                                (case timeoutId cachedItem of
                                   None \<Rightarrow> w1
                                 | Some i \<Rightarrow> w1\<lparr> timers := clearTimeout (Some i) (timers w1) \<rparr>));
                      (i, w3) = setTimeout key t w2;
                      env' = env\<lparr> timeoutId := Some i \<rparr>
                  in (Inr (), w3\<lparr> cache := Some (lru_set h' c cacheKey env') \<rparr>))))"

definition conn_drop :: "cachekey \<Rightarrow> world \<Rightarrow> (error + unit) \<times> world" where
  "conn_drop key w =
     (case cache w of
        None \<Rightarrow> (Inl ConnectionError, w)
      | Some c \<Rightarrow> (Inr (), w\<lparr> cache := Some (lru_del c (generateKey key)) \<rparr>))"

section \<open>The event loop: expiry of timers\<close>

text \<open>
  Letting time pass up to \<open>T\<close> fires the armed timers that are due by then, the
  earliest first and timers due at the same time in the order they were armed. Firing
  takes the timer out of the registry and runs its callback, the drop of its key; the
  outcome of that drop is ignored, as in the source.
\<close>

definition fire :: "timer \<Rightarrow> world \<Rightarrow> world" where
  "fire t w = snd (conn_drop (tkey t) (w\<lparr> timers := filter (\<lambda>x. tid x \<noteq> tid t) (timers w) \<rparr>))"

fun earliest :: "timer list \<Rightarrow> timer option" where
  "earliest [] = None"
| "earliest (t # ts) =
     (case earliest ts of
        None \<Rightarrow> Some t
      | Some u \<Rightarrow> if due u < due t then Some u else Some t)"

definition next_due :: "int \<Rightarrow> timer list \<Rightarrow> timer option" where
  "next_due T ts = earliest (filter (\<lambda>t. due t \<le> T) ts)"

lemma earliest_mem: "earliest ts = Some t \<Longrightarrow> t \<in> set ts"
  by (induction ts arbitrary: t) (auto split: option.splits if_splits)


lemma next_due_mem: "next_due T ts = Some t \<Longrightarrow> t \<in> set ts \<and> due t \<le> T"
  using earliest_mem [of "filter (\<lambda>t. due t \<le> T) ts" t] by (simp add: next_due_def)


lemma timers_conn_drop: "timers (snd (conn_drop k w)) = timers w"
  by (simp add: conn_drop_def split: option.splits)

lemma timers_fire: "timers (fire t w) = filter (\<lambda>x. tid x \<noteq> tid t) (timers w)"
  by (simp add: fire_def timers_conn_drop)

lemma length_filter_mem: "t \<in> set ts \<Longrightarrow> length (filter (\<lambda>x. f x \<noteq> f t) ts) < length ts"
  by (induction ts) (auto simp: less_Suc_eq_le)

function run_timers :: "int \<Rightarrow> world \<Rightarrow> world" where
  "run_timers T w =
     (case next_due T (timers w) of
        None \<Rightarrow> w
      | Some t \<Rightarrow> run_timers T (fire t (w\<lparr> now := max (now w) (due t) \<rparr>)))"
  by pat_completeness auto
termination
  apply (relation "measure (\<lambda>(T, w). length (timers w))")
   apply simp
  subgoal for T w t
    using next_due_mem [of T "timers w" t] by (simp add: timers_fire length_filter_mem)
  done

declare run_timers.simps [simp del]

definition advance :: "int \<Rightarrow> world \<Rightarrow> world" where
  "advance T w = (run_timers T w)\<lparr> now := max (now w) T \<rparr>"

section \<open>Observations and invariants\<close>

text \<open>
  \<open>lookup\<close> reads the store without touching the recency order; \<open>armed\<close> lists
  the handles of the armed timers. \<open>wf\<close> holds of every world the operations can
  reach: handles are unique and were all issued before. \<open>write_byte\<close> is a caller
  writing one byte into a Buffer it holds.
\<close>

definition lookup :: "world \<Rightarrow> string \<Rightarrow> envelope option" where
  "lookup w gk = (case cache w of None \<Rightarrow> None | Some c \<Rightarrow> lru_peek c gk)"

definition armed :: "world \<Rightarrow> nat list" where
  "armed w = map tid (timers w)"

definition handle_ok :: "nat \<Rightarrow> envelope \<Rightarrow> bool" where
  "handle_ok n e = (case timeoutId e of None \<Rightarrow> True | Some i \<Rightarrow> i < n)"

definition wf :: "world \<Rightarrow> bool" where
  "wf w =
     (distinct (armed w) \<and> list_all (\<lambda>i. i < next_timer w) (armed w) \<and>
      (case cache w of
         None \<Rightarrow> True
       | Some c \<Rightarrow> list_all (handle_ok (next_timer w)) (lru_values c)))"

definition weight_ok :: "world \<Rightarrow> bool" where
  "weight_ok w = (case cache w of None \<Rightarrow> True | Some c \<Rightarrow> total (entries c) \<le> lmax c)"

definition write_byte :: "addr \<Rightarrow> nat \<Rightarrow> byte \<Rightarrow> world \<Rightarrow> world" where
  "write_byte a i b w =
     (if a < length (buffers w) then w\<lparr> buffers := (buffers w)[a := (buffers w ! a)[i := b]] \<rparr> else w)"

section \<open>Shapes of JSON text\<close>



section \<open>A running example\<close>

definition example_settings :: settings where
  "example_settings = \<lparr> allowMixedContent = False, lru_max = 1024, lru_length = default_length \<rparr>"

definition example_key :: cachekey where
  "example_key = \<lparr> segment = ''s'', ident = ''1'' \<rparr>"

definition example_world :: world where
  "example_world = conn_start (Connection example_settings)"

definition stopped_world :: world where
  "stopped_world = (case conn_stop example_world of Inl e \<Rightarrow> example_world | Inr w \<Rightarrow> w)"

definition small_world :: world where
  "small_world =
     conn_start (Connection \<lparr> allowMixedContent = False, lru_max = 11, lru_length = default_length \<rparr>)"

definition key_a :: cachekey where
  "key_a = \<lparr> segment = ''s'', ident = ''a'' \<rparr>"

definition key_b :: cachekey where
  "key_b = \<lparr> segment = ''s'', ident = ''b'' \<rparr>"

definition corrupt_world :: world where
  "corrupt_world =
     example_world\<lparr> cache := Some \<lparr> lmax = 1024, llength = default_length,
       entries = [\<lparr> ekey = ''s:1'',
                   envelope_of = \<lparr> item = Text ''{'', stored = 0, ttl = 1000, timeoutId = None \<rparr>,
                   elen = 1 \<rparr>] \<rparr> \<rparr>"

definition mixed_world :: world where
  "mixed_world =
     (conn_start (Connection \<lparr> allowMixedContent = True, lru_max = 1024, lru_length = default_length \<rparr>))
       \<lparr> buffers := [[1, 2, 3]] \<rparr>"


section \<open>Lifecycle guards\<close>

lemma isReady_example_world: "isReady example_world"
  by (simp add: isReady_def example_world_def conn_start_def Connection_def)

lemma not_ready_initially: "\<not> isReady (Connection st)"
  by (simp add: isReady_def Connection_def)

lemma not_ready_after_stop: "conn_stop w = Inr w' \<Longrightarrow> \<not> isReady w'"
  by (auto simp: conn_stop_def isReady_def split: option.splits)

lemma not_ready_stopped_world: "\<not> isReady stopped_world"
  by (simp add: stopped_world_def conn_stop_def example_world_def conn_start_def Connection_def
      isReady_def)

lemma ready_after_start: "isReady (conn_start w)"
  by (simp add: conn_start_def isReady_def split: option.splits)

lemma start_idempotent: "isReady w \<Longrightarrow> conn_start w = w"
  by (auto simp: conn_start_def isReady_def split: option.splits)

text \<open>
  C8: each of get, set and drop, invoked while the connection is not started (before
  start, or after stop), completes with a ConnectionError and leaves the whole state
  as it was.
\<close>

theorem C8_not_started_guard:
  "\<not> isReady w \<Longrightarrow>
     conn_get k w = (Inl ConnectionError, w) \<and>
     conn_set k v t w = (Inl ConnectionError, w) \<and>
     conn_drop k w = (Inl ConnectionError, w)"
  by (simp add: isReady_def conn_get_def conn_set_def conn_drop_def)

theorem C8_not_started_guard_witness:
  "\<not> isReady (Connection example_settings) \<and>
   conn_get example_key (Connection example_settings)
     = (Inl ConnectionError, Connection example_settings) \<and>
   conn_set example_key (JStr ''hello'') 1000 (Connection example_settings)
     = (Inl ConnectionError, Connection example_settings) \<and>
   conn_drop example_key (Connection example_settings)
     = (Inl ConnectionError, Connection example_settings) \<and>
   \<not> isReady stopped_world \<and>
   conn_get example_key stopped_world = (Inl ConnectionError, stopped_world) \<and>
   conn_set example_key (JStr ''hello'') 1000 stopped_world = (Inl ConnectionError, stopped_world) \<and>
   conn_drop example_key stopped_world = (Inl ConnectionError, stopped_world)"
  using C8_not_started_guard [of "Connection example_settings" example_key "JStr ''hello''" 1000]
    C8_not_started_guard [of stopped_world example_key "JStr ''hello''" 1000]
  by (simp add: not_ready_initially not_ready_stopped_world)

text \<open>
  C10: stop on a connection that is not started throws (a TypeError, from reading a
  property of the absent store); stop returns normally exactly when the connection is
  started, and then leaves it not started.
\<close>

theorem C10_stop_requires_started:
  "(\<not> isReady w \<longrightarrow> conn_stop w = Inl TypeError) \<and>
   (isReady w \<longrightarrow> (\<exists>w'. conn_stop w = Inr w' \<and> \<not> isReady w'))"
  by (auto simp: isReady_def conn_stop_def)

theorem C10_stop_requires_started_witness:
  "\<not> isReady (Connection example_settings) \<and>
   conn_stop (Connection example_settings) = Inl TypeError \<and>
   isReady example_world \<and>
   (\<exists>w'. conn_stop example_world = Inr w' \<and> \<not> isReady w')"
  using C10_stop_requires_started [of "Connection example_settings"]
    C10_stop_requires_started [of example_world]
  by (simp add: not_ready_initially isReady_example_world)

section \<open>The TTL bound of set\<close>

lemma Envelope_encodable:
  "\<not> has_cycle v \<Longrightarrow> \<exists>env h'. Envelope h clock k v t st = Inr (env, h')"
  by (cases v) (simp_all add: Envelope_def serialize_def JSON_stringify_def isBuffer_def)

text \<open>
  C6: on a started connection, set fails with InvalidTTLError exactly when the ttl is
  greater than 2147483647, and then nothing is mutated; in particular a ttl of
  2147483648 is rejected, and a ttl of 2147483647 succeeds (for a value the serializer
  accepts). Zero and negative ttls never give this error.
\<close>

theorem C6_set_ttl_boundary:
  "isReady w \<Longrightarrow>
     ((fst (conn_set k v t w) = Inl InvalidTTLError) = (2147483647 < t)) \<and>
     (2147483647 < t \<longrightarrow> conn_set k v t w = (Inl InvalidTTLError, w)) \<and>
     conn_set k v 2147483648 w = (Inl InvalidTTLError, w) \<and>
     (t \<le> 0 \<longrightarrow> fst (conn_set k v t w) \<noteq> Inl InvalidTTLError) \<and>
     (\<not> has_cycle v \<longrightarrow> fst (conn_set k v 2147483647 w) = Inr ())"
proof -
  assume "isReady w"
  then obtain c where c: "cache w = Some c"
    by (auto simp: isReady_def)
  have big: "2147483647 < t \<Longrightarrow> conn_set k v t w = (Inl InvalidTTLError, w)" for t
    by (simp add: conn_set_def c)
  have small: "\<not> 2147483647 < t \<Longrightarrow> fst (conn_set k v t w) \<noteq> Inl InvalidTTLError" for t
    by (simp add: conn_set_def c Let_def setTimeout_def split: sum.splits prod.splits option.splits)
  have ok: "\<not> has_cycle v \<Longrightarrow> fst (conn_set k v 2147483647 w) = Inr ()"
    using Envelope_encodable [of v "buffers w" "now w" k 2147483647 "settings w"]
    by (auto simp: conn_set_def c Let_def setTimeout_def split: sum.splits prod.splits option.splits)
  show ?thesis
    using big [of t] small [of t] big [of 2147483648] ok by auto
qed

theorem C6_set_ttl_boundary_witness:
  "isReady example_world \<and>
   conn_set example_key (JStr ''hello'') 2147483648 example_world
     = (Inl InvalidTTLError, example_world) \<and>
   fst (conn_set example_key (JStr ''hello'') 0 example_world) \<noteq> Inl InvalidTTLError \<and>
   fst (conn_set example_key (JStr ''hello'') 2147483647 example_world) = Inr ()"
  using C6_set_ttl_boundary [of example_world example_key "JStr ''hello''" 0]
  by (simp add: isReady_example_world)

section \<open>Key generation\<close>

lemma append_colon_inject:
  "CHR '':'' \<notin> set a \<Longrightarrow> CHR '':'' \<notin> set b \<Longrightarrow> a @ CHR '':'' # x = b @ CHR '':'' # y
     \<Longrightarrow> a = b \<and> x = y"
proof (induction a arbitrary: b)
  case Nil
  then show ?case by (cases b) auto
next
  case (Cons c a)
  then show ?case by (cases b) auto
qed

text \<open>
  C5, as the code has it: generateKey is the concatenation of the segment, a colon and
  the id; two keys whose segments contain no colon get the same token only when they
  are the same key.
\<close>

theorem C5_generateKey_injective_without_colon:
  "generateKey k = segment k @ '':'' @ ident k \<and>
   (CHR '':'' \<notin> set (segment k1) \<and> CHR '':'' \<notin> set (segment k2) \<and>
    generateKey k1 = generateKey k2 \<longrightarrow> k1 = (k2 :: cachekey))"
  using append_colon_inject [of "segment k1" "segment k2" "ident k1" "ident k2"]
  by (auto simp: generateKey_def)

theorem C5_generateKey_injective_without_colon_witness:
  "CHR '':'' \<notin> set (segment example_key) \<and>
   generateKey example_key = ''s:1'' \<and>
   generateKey example_key \<noteq> generateKey \<lparr> segment = ''s'', ident = ''2'' \<rparr>"
  using C5_generateKey_injective_without_colon
    [of example_key example_key "\<lparr> segment = ''s'', ident = ''2'' \<rparr>"]
  by (auto simp: example_key_def)

text \<open>
  The claim C5 as stated fails: two different keys, both with segment names that
  validateSegmentName accepts, collide.
\<close>

theorem C5_generateKey_collision:
  "validateSegmentName ''a:b'' = None \<and> validateSegmentName ''a'' = None \<and>
   (\<lparr> segment = ''a:b'', ident = ''c'' \<rparr> :: cachekey) \<noteq> \<lparr> segment = ''a'', ident = ''b:c'' \<rparr> \<and>
   generateKey \<lparr> segment = ''a:b'', ident = ''c'' \<rparr> = generateKey \<lparr> segment = ''a'', ident = ''b:c'' \<rparr>"
  by (simp add: validateSegmentName_def generateKey_def)

section \<open>Removal and the expiration timers\<close>

text \<open>
  C1, evaluated on the code: a key is set with a ttl of 1000, dropped, and set again
  ten milliseconds later with a ttl of 5000. After the drop the timer of the first
  envelope is still armed; it fires at 1000 and removes the second envelope, whose own
  ttl has not elapsed.
\<close>

theorem C1_drop_leaves_timer_armed:
  "(let w1 = snd (conn_set example_key (JStr ''a'') 1000 example_world);
        w2 = snd (conn_drop example_key w1);
        w3 = snd (conn_set example_key (JStr ''b'') 5000 (advance 10 w2));
        w4 = advance 1000 w3
    in armed w1 = [0] \<and> lookup w2 (generateKey example_key) = None \<and> armed w2 = [0] \<and>
       fst (conn_get example_key w3)
         = Inr (Some \<lparr> c_item = JStr ''b'', c_stored = 10, c_ttl = 5000 \<rparr>) \<and>
       fst (conn_get example_key w4) = Inr None)"
  by code_simp

text \<open>
  C2, evaluated on the code: with a capacity of 11 bytes, a second set evicts the first
  key, whose timer stays armed. The first key is set again at time 10 with a ttl of 5000;
  the timer of the evicted envelope fires at 1000 and removes the new envelope.
\<close>

theorem C2_eviction_leaves_timer_armed:
  "(let w1 = snd (conn_set key_a (JStr ''aaaaaa'') 1000 small_world);
        w2 = snd (conn_set key_b (JStr ''bbbbbb'') 1000 w1);
        w3 = snd (conn_set key_a (JStr ''c'') 5000 (advance 10 w2));
        w4 = advance 1000 w3
    in lookup w2 (generateKey key_a) = None \<and> armed w2 = [0, 1] \<and>
       fst (conn_get key_a w3)
         = Inr (Some \<lparr> c_item = JStr ''c'', c_stored = 10, c_ttl = 5000 \<rparr>) \<and>
       fst (conn_get key_a w4) = Inr None)"
  by code_simp

section \<open>Reading\<close>

lemma find_without:
  "k' \<noteq> k \<Longrightarrow> find (\<lambda>x. ekey x = k') (without k es) = find (\<lambda>x. ekey x = k') es"
  by (induction es) (auto simp: without_def)


lemma find_ekey: "find (\<lambda>x. ekey x = k) es = Some e \<Longrightarrow> ekey e = k"
  by (induction es) (auto split: if_splits)

lemma lru_peek_lru_get: "lru_peek (snd (lru_get c k)) k' = lru_peek c k'"
proof (cases "lru_find c k")
  case None
  then show ?thesis by (simp add: lru_get_def)
next
  case (Some e)
  then have e: "ekey e = k"
    using find_ekey [of k "entries c" e] by (simp add: lru_find_def)
  show ?thesis
  proof (cases "k' = k")
    case True
    with Some e show ?thesis
      by (simp add: lru_get_def lru_peek_def lru_find_def)
  next
    case False
    with Some e show ?thesis
      by (simp add: lru_get_def lru_peek_def lru_find_def find_without)
  qed
qed

lemma fst_lru_get: "fst (lru_get c k) = lru_peek c k"
  by (simp add: lru_get_def lru_peek_def lru_find_def split: option.splits)

text \<open>
  C7: on a started connection, get of a key whose stored payload cannot be
  deserialized returns a CorruptionError, and the envelope stays in the store as it was:
  every key still maps to the envelope it had, and no timer or buffer is touched.
\<close>

theorem C7_get_corrupt_payload:
  "cache w = Some c \<Longrightarrow> lru_peek c (generateKey k) = Some e \<Longrightarrow> deserialize (item e) = DError \<Longrightarrow>
     fst (conn_get k w) = Inl CorruptionError \<and>
     lookup (snd (conn_get k w)) gk = lookup w gk \<and>
     timers (snd (conn_get k w)) = timers w \<and>
     buffers (snd (conn_get k w)) = buffers w"
  using fst_lru_get [of c "generateKey k"] lru_peek_lru_get [of c "generateKey k" gk]
  by (cases "lru_get c (generateKey k)") (auto simp: conn_get_def lookup_def)

theorem C7_get_corrupt_payload_witness:
  "deserialize (Text ''{'') = DError \<and>
   fst (conn_get example_key corrupt_world) = Inl CorruptionError \<and>
   lookup (snd (conn_get example_key corrupt_world)) (generateKey example_key)
     = Some \<lparr> item = Text ''{'', stored = 0, ttl = 1000, timeoutId = None \<rparr>"
proof -
  let ?e = "\<lparr> item = Text ''{'', stored = 0, ttl = 1000, timeoutId = None \<rparr>"
  let ?c = "\<lparr> lmax = 1024, llength = default_length,
       entries = [\<lparr> ekey = ''s:1'', envelope_of = ?e, elen = 1 \<rparr>] \<rparr>"
  have h1: "cache corrupt_world = Some ?c"
    by (simp add: corrupt_world_def)
  have h2: "lru_peek ?c (generateKey example_key) = Some ?e"
    by (simp add: lru_peek_def lru_find_def generateKey_def example_key_def)
  have h0: "deserialize (Text ''{'') = DError"
    by code_simp
  then have h3: "deserialize (item ?e) = DError"
    by simp
  have h4: "lookup corrupt_world (generateKey example_key) = Some ?e"
    unfolding lookup_def h1 using h2 by simp
  from C7_get_corrupt_payload [OF h1 h2 h3, of "generateKey example_key"]
  have "fst (conn_get example_key corrupt_world) = Inl CorruptionError"
    and "lookup (snd (conn_get example_key corrupt_world)) (generateKey example_key)
           = lookup corrupt_world (generateKey example_key)"
    by blast+
  with h0 h4 show ?thesis
    by (simp only: simp_thms)
qed

section \<open>Mixed content\<close>

text \<open>
  C9, evaluated on the code: in mixed-content mode the buffer at address 0 is set. The
  store holds a copy at address 1, and a write to the original does not reach it. But
  get returns the stored buffer itself (address 1), and a write through the result
  changes the stored payload.
\<close>

theorem C9_get_returns_stored_buffer:
  "(let w1 = snd (conn_set example_key (JBuffer 0) 1000 mixed_world);
        w2 = write_byte 0 0 9 w1;
        r = conn_get example_key w2;
        w3 = write_byte 1 0 255 (snd r)
    in map_option item (lookup w1 (generateKey example_key)) = Some (Bytes 1) \<and>
       buffer_bytes (buffers w1) 1 = [1, 2, 3] \<and>
       buffer_bytes (buffers w2) 0 = [9, 2, 3] \<and>
       buffer_bytes (buffers w2) 1 = [1, 2, 3] \<and>
       fst r = Inr (Some \<lparr> c_item = JBuffer 1, c_stored = 0, c_ttl = 1000 \<rparr>) \<and>
       map_option item (lookup w3 (generateKey example_key)) = Some (Bytes 1) \<and>
       buffer_bytes (buffers w3) 1 = [255, 2, 3])"
  by code_simp

section \<open>The store: trimming and lookup\<close>

lemma trim_subset: "set (trim m es) \<subseteq> set es"
proof (induction m es rule: trim.induct)
  case (1 m es)
  show ?case
  proof (cases "m < total es")
    case True
    with 1 have "set (trim m (butlast es)) \<subseteq> set (butlast es)" by simp
    moreover have "set (butlast es) \<subseteq> set es" by (auto dest: in_set_butlastD)
    ultimately show ?thesis using True by (subst trim.simps) auto
  next
    case False
    then show ?thesis by (subst trim.simps) simp
  qed
qed

lemma trim_take: "\<exists>n. trim m es = take n es"
proof (induction m es rule: trim.induct)
  case (1 m es)
  show ?case
  proof (cases "m < total es")
    case True
    with 1 obtain n where "trim m (butlast es) = take n (butlast es)"
      by blast
    then have "trim m es = take (min n (length es - 1)) es"
      using True by (subst trim.simps) (simp add: butlast_conv_take)
    then show ?thesis ..
  next
    case False
    then have "trim m es = take (length es) es"
      by (subst trim.simps) simp
    then show ?thesis ..
  qed
qed

lemma total_trim: "total (trim m es) \<le> m"
proof (induction m es rule: trim.induct)
  case (1 m es)
  show ?case
  proof (cases "m < total es")
    case True
    with 1 show ?thesis by (subst trim.simps) simp
  next
    case False
    then show ?thesis by (subst trim.simps) simp
  qed
qed



lemma total_without: "total (without k es) \<le> total es"
  by (induction es) (simp_all add: without_def total_def)

lemma lru_set_weight: "total (entries c) \<le> lmax c \<Longrightarrow> total (entries (lru_set h c k v)) \<le> lmax (lru_set h c k v)"
  using total_without [of k "entries c"]
  by (simp add: lru_set_def lru_del_def Let_def total_trim)








section \<open>Timer handles stay fresh\<close>

lemma conn_set_failed: "fst (conn_set k v t w) = Inl err \<Longrightarrow> snd (conn_set k v t w) = w"
  by (auto simp: conn_set_def Let_def setTimeout_def split: option.splits sum.splits prod.splits if_splits)

lemma conn_set_shape:
  assumes "cache w = Some c" and "fst (conn_set k v t w) = Inr ()"
  shows "\<exists>h env h'. snd (conn_set k v t w) =
     w\<lparr> buffers := h',
        timers := clearTimeout h (timers w)
           @ [\<lparr> tid = next_timer w, due = now w + timeout_delay t, tkey = k \<rparr>],
        next_timer := Suc (next_timer w),
        cache := Some (lru_set h' c (generateKey k) (env\<lparr> timeoutId := Some (next_timer w) \<rparr>)) \<rparr>"
proof -
  from assms have t: "\<not> 2147483647 < t"
    by (auto simp: conn_set_def)
  from assms t obtain env h' where env: "Envelope (buffers w) (now w) k v t (settings w) = Inr (env, h')"
    by (cases "Envelope (buffers w) (now w) k v t (settings w)") (auto simp: conn_set_def)
  show ?thesis
  proof (cases "lru_peek c (generateKey k)")
    case None
    have "clearTimeout None (timers w) = timers w"
      by (simp add: clearTimeout_def)
    then show ?thesis
      using assms(1) t env None
      by (intro exI [of _ None] exI [of _ env] exI [of _ h'])
         (simp add: conn_set_def Let_def setTimeout_def)
  next
    case (Some e)
    show ?thesis
      using assms(1) t env Some
      by (intro exI [of _ "timeoutId e"] exI [of _ env] exI [of _ h'])
         (simp add: conn_set_def Let_def setTimeout_def clearTimeout_def split: option.splits)
  qed
qed

lemma handle_ok_Suc: "handle_ok n e \<Longrightarrow> handle_ok (Suc n) e"
  by (auto simp: handle_ok_def split: option.splits)

lemma without_subset: "set (without k es) \<subseteq> set es"
  by (auto simp: without_def)

lemma entries_lru_set:
  "set (entries (lru_set h c k v))
     \<subseteq> insert \<lparr> ekey = k, envelope_of = v, elen = llength c h v \<rparr> (set (entries c))"
  using trim_subset [of "lmax c" "\<lparr> ekey = k, envelope_of = v, elen = llength c h v \<rparr> # without k (entries c)"]
    without_subset [of k "entries c"]
  by (auto simp: lru_set_def lru_del_def Let_def)

lemma clearTimeout_subset: "set (clearTimeout h ts) \<subseteq> set ts"
  by (auto simp: clearTimeout_def split: option.splits)

lemma distinct_clearTimeout: "distinct (map tid ts) \<Longrightarrow> distinct (map tid (clearTimeout h ts))"
  by (auto simp: clearTimeout_def distinct_map_filter split: option.splits)

lemma wf_Connection: "wf (Connection st)"
  by (simp add: wf_def Connection_def armed_def)

lemma wf_conn_start: "wf w \<Longrightarrow> wf (conn_start w)"
  by (auto simp: wf_def conn_start_def armed_def LRUCache_def lru_values_def split: option.splits)

lemma wf_conn_get: "wf w \<Longrightarrow> wf (snd (conn_get k w))"
proof (cases "cache w")
  case None
  assume "wf w"
  with None show ?thesis by (simp add: conn_get_def)
next
  case (Some c)
  assume wf: "wf w"
  have sub: "set (lru_values (snd (lru_get c (generateKey k)))) \<subseteq> set (lru_values c)"
    using without_subset [of "generateKey k" "entries c"]
    by (auto simp: lru_get_def lru_values_def lru_find_def find_Some_iff split: option.splits)
  have eq: "snd (conn_get k w) = w\<lparr> cache := Some (snd (lru_get c (generateKey k))) \<rparr>"
    using Some by (simp add: conn_get_def split: prod.splits option.splits deserialized.splits)
  show ?thesis
    unfolding eq using wf Some sub by (auto simp: wf_def armed_def list_all_iff)
qed

lemma wf_conn_drop: "wf w \<Longrightarrow> wf (snd (conn_drop k w))"
  using without_subset [of "generateKey k"]
  by (auto simp: wf_def conn_drop_def armed_def lru_del_def lru_values_def list_all_iff
      split: option.splits)

lemma wf_conn_set: "wf w \<Longrightarrow> wf (snd (conn_set k v t w))"
proof (cases "fst (conn_set k v t w)")
  case (Inl err)
  assume "wf w"
  with Inl show ?thesis by (simp add: conn_set_failed)
next
  case (Inr u)
  assume wf: "wf w"
  from Inr obtain c where c: "cache w = Some c"
    by (cases "cache w") (auto simp: conn_set_def)
  from Inr conn_set_shape [OF c, of k v t] obtain h env h' where
    eq: "snd (conn_set k v t w) =
      w\<lparr> buffers := h',
         timers := clearTimeout h (timers w)
            @ [\<lparr> tid = next_timer w, due = now w + timeout_delay t, tkey = k \<rparr>],
         next_timer := Suc (next_timer w),
         cache := Some (lru_set h' c (generateKey k) (env\<lparr> timeoutId := Some (next_timer w) \<rparr>)) \<rparr>"
    by auto
  from wf have below: "\<And>x. x \<in> set (timers w) \<Longrightarrow> tid x < next_timer w"
    and dist: "distinct (map tid (timers w))"
    by (auto simp: wf_def armed_def list_all_iff)
  from wf c have old: "\<And>en. en \<in> set (entries c) \<Longrightarrow> handle_ok (next_timer w) (envelope_of en)"
    by (auto simp: wf_def lru_values_def list_all_iff)
  have below': "\<And>x. x \<in> set (clearTimeout h (timers w)) \<Longrightarrow> tid x < next_timer w"
    using below clearTimeout_subset [of h "timers w"] by blast
  then have fresh: "next_timer w \<notin> tid ` set (clearTimeout h (timers w))"
    by fastforce
  have 1: "distinct (armed (snd (conn_set k v t w)))"
    unfolding eq using fresh distinct_clearTimeout [OF dist, of h] by (simp add: armed_def)
  have 2: "list_all (\<lambda>i. i < next_timer (snd (conn_set k v t w))) (armed (snd (conn_set k v t w)))"
    unfolding eq using below' by (auto simp: armed_def list_all_iff less_Suc_eq)
  have 3: "list_all (handle_ok (Suc (next_timer w)))
      (lru_values (lru_set h' c (generateKey k) (env\<lparr> timeoutId := Some (next_timer w) \<rparr>)))"
  proof -
    let ?env = "env\<lparr> timeoutId := Some (next_timer w) \<rparr>"
    have "handle_ok (Suc (next_timer w)) (envelope_of en)"
      if "en \<in> set (entries (lru_set h' c (generateKey k) ?env))" for en
    proof -
      from that entries_lru_set [of h' c "generateKey k" ?env]
      consider "en = \<lparr> ekey = generateKey k, envelope_of = ?env, elen = llength c h' ?env \<rparr>"
        | "en \<in> set (entries c)"
        by blast
      then show ?thesis
      proof cases
        case 1
        then show ?thesis by (simp add: handle_ok_def)
      next
        case 2
        then show ?thesis by (simp add: old handle_ok_Suc)
      qed
    qed
    then show ?thesis
      by (simp add: list_all_iff lru_values_def)
  qed
  show ?thesis
    using 1 2 3 unfolding wf_def by (simp add: eq)
qed

lemma wf_fire: "wf w \<Longrightarrow> wf (fire t w)"
proof -
  assume wf: "wf w"
  have "wf (w\<lparr> timers := filter (\<lambda>x. tid x \<noteq> tid t) (timers w) \<rparr>)"
    using wf by (auto simp: wf_def armed_def list_all_iff distinct_map_filter split: option.splits)
  then show ?thesis
    unfolding fire_def by (rule wf_conn_drop)
qed

lemma wf_now: "wf (w\<lparr> now := x \<rparr>) = wf w"
  by (simp add: wf_def armed_def split: option.splits)

lemma wf_run_timers: "wf w \<Longrightarrow> wf (run_timers T w)"
proof (induction T w rule: run_timers.induct)
  case (1 T w)
  show ?case
  proof (cases "next_due T (timers w)")
    case None
    with "1.prems" show ?thesis by (subst run_timers.simps) simp
  next
    case (Some t)
    have "wf (fire t (w\<lparr> now := max (now w) (due t) \<rparr>))"
      using "1.prems" by (simp add: wf_fire wf_now)
    then have "wf (run_timers T (fire t (w\<lparr> now := max (now w) (due t) \<rparr>)))"
      by (rule "1.IH" [OF Some])
    then show ?thesis using Some by (subst run_timers.simps) simp
  qed
qed

lemma wf_advance: "wf w \<Longrightarrow> wf (advance T w)"
  by (simp add: advance_def wf_now wf_run_timers)

lemma foldl_clearTimeout_subset:
  "set (foldl (\<lambda>ts e. clearTimeout (timeoutId e) ts) ts es) \<subseteq> set ts"
proof (induction es arbitrary: ts)
  case Nil
  show ?case by simp
next
  case (Cons e es)
  show ?case
    using Cons [of "clearTimeout (timeoutId e) ts"] clearTimeout_subset [of "timeoutId e" ts]
    by auto
qed

lemma foldl_clearTimeout_distinct:
  "distinct (map tid ts) \<Longrightarrow> distinct (map tid (foldl (\<lambda>ts e. clearTimeout (timeoutId e) ts) ts es))"
  by (induction es arbitrary: ts) (simp_all add: distinct_clearTimeout)

lemma wf_conn_stop: "wf w \<Longrightarrow> conn_stop w = Inr w' \<Longrightarrow> wf w'"
proof -
  assume wf: "wf w" and stop: "conn_stop w = Inr w'"
  from stop obtain c where c: "cache w = Some c"
    by (cases "cache w") (auto simp: conn_stop_def)
  let ?ts = "foldl (\<lambda>ts e. clearTimeout (timeoutId e) ts) (timers w) (lru_values c)"
  from stop c have w': "w' = w\<lparr> timers := ?ts, cache := None \<rparr>"
    by (simp add: conn_stop_def)
  from wf have below: "\<And>x. x \<in> set (timers w) \<Longrightarrow> tid x < next_timer w"
    and dist: "distinct (map tid (timers w))"
    by (auto simp: wf_def armed_def list_all_iff)
  have "distinct (map tid ?ts)"
    using dist by (rule foldl_clearTimeout_distinct)
  moreover have "\<And>x. x \<in> set ?ts \<Longrightarrow> tid x < next_timer w"
    using below foldl_clearTimeout_subset [of "timers w" "lru_values c"] by blast
  ultimately show ?thesis
    by (simp add: w' wf_def armed_def list_all_iff)
qed

lemma timer_handles_fresh:
  "wf (Connection st) \<and>
   (wf w \<longrightarrow>
      wf (conn_start w) \<and> wf (snd (conn_get k w)) \<and> wf (snd (conn_set k v t w)) \<and>
      wf (snd (conn_drop k w)) \<and> wf (advance T w))"
  by (simp add: wf_Connection wf_conn_start wf_conn_get wf_conn_set wf_conn_drop wf_advance)

section \<open>Replacement\<close>





section \<open>Strings and numbers in JSON text\<close>





















section \<open>Parsing what was printed\<close>














section \<open>The parser never runs out of fuel\<close>

lemma length_skip_ws: "length (skip_ws s) \<le> length s"
  by (simp add: skip_ws_def length_dropWhile_le)

lemma skip_ws_length: "skip_ws s = c # r \<Longrightarrow> length r < length s"
  using length_skip_ws [of s] by simp

lemma parse_chars_shorter: "parse_chars s = Some (str, r) \<Longrightarrow> length r < length s"
proof (induction s arbitrary: str r rule: length_induct)
  case (1 s)
  show ?case
  proof (cases s)
    case Nil
    with "1.prems" show ?thesis by simp
  next
    case (Cons c t)
    have IH: "parse_chars u = Some (str', r') \<Longrightarrow> length u < length s \<Longrightarrow> length r' < length u"
      for u str' r'
      using "1.IH" by blast
    from "1.prems" show ?thesis
      unfolding Cons
      by (auto simp: consc_def split: if_splits list.splits option.splits prod.splits
          dest!: IH [unfolded Cons])
  qed
qed

lemma parse_number_shorter: "parse_number s = Good v r \<Longrightarrow> length r < length s"
proof -
  assume a: "parse_number s = Good v r"
  let ?t = "if s \<noteq> [] \<and> hd s = CHR ''-'' then tl s else s"
  from a have r: "r = dropWhile is_digit ?t" and ne: "takeWhile is_digit ?t \<noteq> []"
    by (auto simp: parse_number_def Let_def split: if_splits)
  have "length (takeWhile is_digit ?t) + length (dropWhile is_digit ?t) = length ?t"
    by (metis length_append takeWhile_dropWhile_id)
  with ne have "length (dropWhile is_digit ?t) < length ?t"
    by (cases "takeWhile is_digit ?t") simp_all
  moreover have "length ?t \<le> length s"
    by simp
  ultimately show ?thesis
    unfolding r by linarith
qed

lemma parse_literal_shorter: "parse_literal w v s = Good v' r \<Longrightarrow> length r \<le> length s"
  by (auto simp: parse_literal_def split: if_splits)

lemma parse_shorter:
  "parse_value n s = Good v r \<Longrightarrow> length r < length s"
  "parse_elements n xs s = Good v r \<Longrightarrow> length r < length s"
  "parse_members n kvs s = Good v r \<Longrightarrow> length r < length s"
proof (induction n s and n xs s and n kvs s arbitrary: v r and v r and v r
    rule: parse_value_parse_elements_parse_members.induct)
  case (1 s)
  then show ?case by simp
next
  case (2 n s)
  from "2.prems" obtain c t where st: "skip_ws s = c # t"
    by (cases "skip_ws s") simp_all
  then have len: "length t < length s"
    by (rule skip_ws_length)
  consider (arr) "c = CHR ''[''" | (obj) "c \<noteq> CHR ''[''" "c = CHR ''{''"
    | (str) "c \<noteq> CHR ''[''" "c \<noteq> CHR ''{''" "c = dquote"
    | (lit) "c \<noteq> CHR ''[''" "c \<noteq> CHR ''{''" "c \<noteq> dquote"
        "c = CHR ''n'' \<or> c = CHR ''t'' \<or> c = CHR ''f''"
    | (num) "c \<noteq> CHR ''[''" "c \<noteq> CHR ''{''" "c \<noteq> dquote"
        "c \<noteq> CHR ''n''" "c \<noteq> CHR ''t''" "c \<noteq> CHR ''f''"
    by blast
  then show ?case
  proof cases
    case arr
    from "2.prems" st arr obtain d t' where dt: "skip_ws t = d # t'"
      by (cases "skip_ws t") simp_all
    show ?thesis
    proof (cases "d = CHR '']''")
      case True
      with "2.prems" st arr dt have "r = t'" by simp
      with skip_ws_length [OF dt] len show ?thesis by simp
    next
      case False
      with "2.prems" st arr dt have "parse_elements n [] t = Good v r" by simp
      then have "length r < length t"
        using "2.IH"(1) [OF st arr dt False] by blast
      with len show ?thesis by simp
    qed
  next
    case obj
    from "2.prems" st obj obtain d t' where dt: "skip_ws t = d # t'"
      by (cases "skip_ws t") simp_all
    show ?thesis
    proof (cases "d = CHR ''}''")
      case True
      with "2.prems" st obj dt have "r = t'" by simp
      with skip_ws_length [OF dt] len show ?thesis by simp
    next
      case False
      with "2.prems" st obj dt have "parse_members n [] t = Good v r" by simp
      then have "length r < length t"
        using "2.IH"(2) [OF st obj dt False] by blast
      with len show ?thesis by simp
    qed
  next
    case str
    with "2.prems" st obtain x where "parse_chars t = Some (x, r)"
      by (cases "parse_chars t") auto
    then have "length r < length t" by (rule parse_chars_shorter)
    with len show ?thesis by simp
  next
    case lit
    with "2.prems" st have "\<exists>w v'. parse_literal w v' t = Good v r"
      by auto
    then have "length r \<le> length t"
      using parse_literal_shorter by blast
    with len show ?thesis by simp
  next
    case num
    with "2.prems" st have "parse_number (c # t) = Good v r" by simp
    then have "length r < length (c # t)" by (rule parse_number_shorter)
    with len show ?thesis by simp
  qed
next
  case (3 xs s)
  then show ?case by simp
next
  case (4 n xs s)
  from "4.prems" obtain x t where pv: "parse_value n s = Good x t"
    by (cases "parse_value n s") simp_all
  then have len: "length t < length s"
    by (rule "4.IH"(1))
  from "4.prems" pv obtain c t' where st: "skip_ws t = c # t'"
    by (cases "skip_ws t") simp_all
  then have len': "length t' < length t"
    by (rule skip_ws_length)
  show ?case
  proof (cases "c = CHR '',''")
    case True
    with "4.prems" pv st have "parse_elements n (xs @ [x]) t' = Good v r" by simp
    then have "length r < length t'"
      using "4.IH"(2) [OF pv st True] by blast
    with len len' show ?thesis by simp
  next
    case False
    with "4.prems" pv st have "r = t'"
      by (simp split: if_splits)
    with len len' show ?thesis by simp
  qed
next
  case (5 kvs s)
  then show ?case by simp
next
  case (6 n kvs s)
  from "6.prems" obtain c t where st: "skip_ws s = c # t"
    by (cases "skip_ws s") simp_all
  with "6.prems" have c: "\<not> c \<noteq> dquote"
    by (auto split: if_splits)
  from "6.prems" st c obtain k t1 where pc: "parse_chars t = Some (k, t1)"
    by (cases "parse_chars t") auto
  from "6.prems" st c pc obtain c1 t2 where st1: "skip_ws t1 = c1 # t2"
    by (cases "skip_ws t1") simp_all
  with "6.prems" st c pc have c1: "\<not> c1 \<noteq> CHR '':''"
    by (auto split: if_splits)
  from "6.prems" st c pc st1 c1 obtain x t3 where pv: "parse_value n t2 = Good x t3"
    by (cases "parse_value n t2") simp_all
  from "6.prems" st c pc st1 c1 pv obtain c3 t4 where st3: "skip_ws t3 = c3 # t4"
    by (cases "skip_ws t3") simp_all
  have l1: "length t < length s" using st by (rule skip_ws_length)
  have l2: "length t1 < length t" using pc by (rule parse_chars_shorter)
  have l3: "length t2 < length t1" using st1 by (rule skip_ws_length)
  have l4: "length t3 < length t2" using pv "6.IH"(1) [OF st c pc refl st1 c1] by blast
  have l5: "length t4 < length t3" using st3 by (rule skip_ws_length)
  show ?case
  proof (cases "c3 = CHR '',''")
    case True
    with "6.prems" st c pc st1 c1 pv st3
    have "parse_members n (obj_put k x kvs) t4 = Good v r" by simp
    then have "length r < length t4"
      using "6.IH"(2) [OF st c pc refl st1 c1 pv st3 True] by blast
    with l1 l2 l3 l4 l5 show ?thesis by simp
  next
    case False
    with "6.prems" st c pc st1 c1 pv st3 have "r = t4"
      by (simp split: if_splits)
    with l1 l2 l3 l4 l5 show ?thesis by simp
  qed
qed

lemma parse_number_no_fuel: "parse_number s \<noteq> Fuel"
  by (simp add: parse_number_def Let_def)

lemma parse_literal_no_fuel: "parse_literal w v s \<noteq> Fuel"
  by (simp add: parse_literal_def)

lemma parse_no_fuel:
  "2 * length s < n \<Longrightarrow> parse_value n s \<noteq> Fuel"
  "2 * length s + 1 < n \<Longrightarrow> parse_elements n xs s \<noteq> Fuel"
  "2 * length s + 1 < n \<Longrightarrow> parse_members n kvs s \<noteq> Fuel"
proof (induction n s and n xs s and n kvs s
    rule: parse_value_parse_elements_parse_members.induct)
  case (1 s)
  then show ?case by simp
next
  case (2 n s)
  show ?case
  proof
    assume F: "parse_value (Suc n) s = Fuel"
    then obtain c t where st: "skip_ws s = c # t"
      by (cases "skip_ws s") simp_all
    then have len: "length t < length s"
      by (rule skip_ws_length)
    with "2.prems" have fuel: "2 * length t + 1 < n"
      by simp
    consider (arr) "c = CHR ''[''" | (obj) "c \<noteq> CHR ''[''" "c = CHR ''{''"
      | (str) "c \<noteq> CHR ''[''" "c \<noteq> CHR ''{''" "c = dquote"
      | (lit) "c \<noteq> CHR ''[''" "c \<noteq> CHR ''{''" "c \<noteq> dquote"
          "c = CHR ''n'' \<or> c = CHR ''t'' \<or> c = CHR ''f''"
      | (num) "c \<noteq> CHR ''[''" "c \<noteq> CHR ''{''" "c \<noteq> dquote"
          "c \<noteq> CHR ''n''" "c \<noteq> CHR ''t''" "c \<noteq> CHR ''f''"
      by blast
    then show False
    proof cases
      case arr
      from F st arr obtain d t' where dt: "skip_ws t = d # t'"
        by (cases "skip_ws t") simp_all
      from F st arr dt have d: "d \<noteq> CHR '']''"
        by (auto split: if_splits)
      with F st arr dt have "parse_elements n [] t = Fuel" by simp
      with "2.IH"(1) [OF st arr dt d fuel] show False by simp
    next
      case obj
      from F st obj obtain d t' where dt: "skip_ws t = d # t'"
        by (cases "skip_ws t") simp_all
      from F st obj dt have d: "d \<noteq> CHR ''}''"
        by (auto split: if_splits)
      with F st obj dt have "parse_members n [] t = Fuel" by simp
      with "2.IH"(2) [OF st obj dt d fuel] show False by simp
    next
      case str
      with F st show False
        by (auto split: option.splits)
    next
      case lit
      with F st show False
        by (auto simp: parse_literal_no_fuel)
    next
      case num
      with F st show False
        by (simp add: parse_number_no_fuel)
    qed
  qed
next
  case (3 xs s)
  then show ?case by simp
next
  case (4 n xs s)
  from "4.prems" have f1: "2 * length s < n" by simp
  show ?case
  proof
    assume F: "parse_elements (Suc n) xs s = Fuel"
    have nf: "parse_value n s \<noteq> Fuel"
      using f1 by (rule "4.IH"(1))
    with F obtain x t where pv: "parse_value n s = Good x t"
      by (cases "parse_value n s") simp_all
    then have len: "length t < length s"
      by (rule parse_shorter(1))
    from F pv obtain c t' where st: "skip_ws t = c # t'"
      by (cases "skip_ws t") simp_all
    then have len': "length t' < length t"
      by (rule skip_ws_length)
    from F pv st have c: "c = CHR '',''"
      by (auto split: if_splits)
    with F pv st have "parse_elements n (xs @ [x]) t' = Fuel" by simp
    moreover have "2 * length t' + 1 < n"
      using f1 len len' by simp
    ultimately show False
      using "4.IH"(2) [OF pv st c] by simp
  qed
next
  case (5 kvs s)
  then show ?case by simp
next
  case (6 n kvs s)
  from "6.prems" have f1: "2 * length s < n" by simp
  show ?case
  proof
    assume F: "parse_members (Suc n) kvs s = Fuel"
    then obtain c t where st: "skip_ws s = c # t"
      by (cases "skip_ws s") simp_all
    with F have c: "\<not> c \<noteq> dquote"
      by (auto split: if_splits)
    from F st c obtain k t1 where pc: "parse_chars t = Some (k, t1)"
      by (cases "parse_chars t") auto
    from F st c pc obtain c1 t2 where st1: "skip_ws t1 = c1 # t2"
      by (cases "skip_ws t1") simp_all
    with F st c pc have c1: "\<not> c1 \<noteq> CHR '':''"
      by (auto split: if_splits)
    have l1: "length t < length s" using st by (rule skip_ws_length)
    have l2: "length t1 < length t" using pc by (rule parse_chars_shorter)
    have l3: "length t2 < length t1" using st1 by (rule skip_ws_length)
    have "2 * length t2 < n"
      using f1 l1 l2 l3 by simp
    then have nf: "parse_value n t2 \<noteq> Fuel"
      by (rule "6.IH"(1) [OF st c pc refl st1 c1])
    with F st c pc st1 c1 obtain x t3 where pv: "parse_value n t2 = Good x t3"
      by (cases "parse_value n t2") simp_all
    from F st c pc st1 c1 pv obtain c3 t4 where st3: "skip_ws t3 = c3 # t4"
      by (cases "skip_ws t3") simp_all
    have l4: "length t3 < length t2" using pv by (rule parse_shorter(1))
    have l5: "length t4 < length t3" using st3 by (rule skip_ws_length)
    from F st c pc st1 c1 pv st3 have c3: "c3 = CHR '',''"
      by (auto split: if_splits)
    with F st c pc st1 c1 pv st3
    have "parse_members n (obj_put k x kvs) t4 = Fuel" by simp
    moreover have "2 * length t4 + 1 < n"
      using f1 l1 l2 l3 l4 l5 by simp
    ultimately show False
      using "6.IH"(2) [OF st c pc refl st1 c1 pv st3 c3] by simp
  qed
qed

lemma JSON_parse_fuel: "parse_value (2 * length s + 1) s \<noteq> Fuel"
  by (rule parse_no_fuel(1)) simp

section \<open>Round trip of the serializer\<close>





section \<open>Resident weight\<close>

lemma total_move_front:
  "find (\<lambda>x. ekey x = k) es = Some e \<Longrightarrow> total (e # without k es) \<le> total es"
proof (induction es)
  case Nil
  then show ?case by simp
next
  case (Cons x es)
  show ?case
  proof (cases "ekey x = k")
    case True
    with Cons.prems have "e = x" by simp
    with True total_without [of k es] show ?thesis
      by (simp add: total_def without_def)
  next
    case False
    with Cons have "total (e # without k es) \<le> total es" by simp
    with False show ?thesis
      by (simp add: total_def without_def)
  qed
qed

lemma weight_ok_Connection: "weight_ok (Connection st)"
  by (simp add: weight_ok_def Connection_def)

lemma weight_ok_conn_start: "weight_ok w \<Longrightarrow> weight_ok (conn_start w)"
  by (auto simp: weight_ok_def conn_start_def LRUCache_def total_def split: option.splits)

lemma weight_ok_conn_get: "weight_ok w \<Longrightarrow> weight_ok (snd (conn_get k w))"
proof (cases "cache w")
  case None
  assume "weight_ok w"
  with None show ?thesis by (simp add: conn_get_def)
next
  case (Some c)
  assume ok: "weight_ok w"
  have eq: "snd (conn_get k w) = w\<lparr> cache := Some (snd (lru_get c (generateKey k))) \<rparr>"
    using Some by (simp add: conn_get_def split: prod.splits option.splits deserialized.splits)
  have "total (entries (snd (lru_get c (generateKey k)))) \<le> total (entries c)"
    using total_move_front [of "generateKey k" "entries c"]
    by (simp add: lru_get_def lru_find_def split: option.splits)
  moreover have "lmax (snd (lru_get c (generateKey k))) = lmax c"
    by (simp add: lru_get_def split: option.splits)
  ultimately show ?thesis
    using ok Some by (simp add: eq weight_ok_def)
qed

lemma weight_ok_conn_drop: "weight_ok w \<Longrightarrow> weight_ok (snd (conn_drop k w))"
  using total_without [of "generateKey k"]
  by (auto simp: weight_ok_def conn_drop_def lru_del_def split: option.splits intro: order_trans)

lemma weight_ok_conn_set: "weight_ok w \<Longrightarrow> weight_ok (snd (conn_set k v t w))"
proof (cases "fst (conn_set k v t w)")
  case (Inl err)
  assume "weight_ok w"
  with Inl show ?thesis by (simp add: conn_set_failed)
next
  case (Inr u)
  assume ok: "weight_ok w"
  from Inr obtain c where c: "cache w = Some c"
    by (cases "cache w") (auto simp: conn_set_def)
  from Inr conn_set_shape [OF c, of k v t] obtain h env h' where
    eq: "snd (conn_set k v t w) =
      w\<lparr> buffers := h',
         timers := clearTimeout h (timers w)
            @ [\<lparr> tid = next_timer w, due = now w + timeout_delay t, tkey = k \<rparr>],
         next_timer := Suc (next_timer w),
         cache := Some (lru_set h' c (generateKey k) (env\<lparr> timeoutId := Some (next_timer w) \<rparr>)) \<rparr>"
    by auto
  from ok c have "total (entries c) \<le> lmax c"
    by (simp add: weight_ok_def)
  then show ?thesis
    by (simp add: eq weight_ok_def lru_set_weight)
qed

lemma weight_ok_fire: "weight_ok w \<Longrightarrow> weight_ok (fire t w)"
proof -
  assume "weight_ok w"
  then have "weight_ok (w\<lparr> timers := filter (\<lambda>x. tid x \<noteq> tid t) (timers w) \<rparr>)"
    by (simp add: weight_ok_def)
  then show ?thesis
    unfolding fire_def by (rule weight_ok_conn_drop)
qed

lemma weight_ok_run_timers: "weight_ok w \<Longrightarrow> weight_ok (run_timers T w)"
proof (induction T w rule: run_timers.induct)
  case (1 T w)
  show ?case
  proof (cases "next_due T (timers w)")
    case None
    with "1.prems" show ?thesis by (subst run_timers.simps) simp
  next
    case (Some t)
    have "weight_ok (w\<lparr> now := max (now w) (due t) \<rparr>)"
      using "1.prems" by (simp add: weight_ok_def)
    then have "weight_ok (fire t (w\<lparr> now := max (now w) (due t) \<rparr>))"
      by (rule weight_ok_fire)
    then have "weight_ok (run_timers T (fire t (w\<lparr> now := max (now w) (due t) \<rparr>)))"
      by (rule "1.IH" [OF Some])
    then show ?thesis using Some by (subst run_timers.simps) simp
  qed
qed

lemma weight_ok_advance: "weight_ok w \<Longrightarrow> weight_ok (advance T w)"
  using weight_ok_run_timers [of w T] by (simp add: advance_def weight_ok_def)

lemma set_copies_buffer:
  assumes "cache w = Some c" and "allowMixedContent (settings w)" and "t \<le> 2147483647"
  shows "buffers (snd (conn_set k (JBuffer a) t w)) = buffers w @ [buffer_bytes (buffers w) a]"
  using assms
  by (simp add: conn_set_def Envelope_def serialize_def isBuffer_def Let_def setTimeout_def
      split: option.splits)

lemma resident_weight_bounded:
  "weight_ok (Connection st) \<and>
   (weight_ok w \<longrightarrow>
      weight_ok (conn_start w) \<and> weight_ok (snd (conn_get k w)) \<and>
      weight_ok (snd (conn_set k v t w)) \<and> weight_ok (snd (conn_drop k w)) \<and>
      weight_ok (advance T w))"
  by (simp add: weight_ok_Connection weight_ok_conn_start weight_ok_conn_get weight_ok_conn_set
      weight_ok_conn_drop weight_ok_advance)

end
